theory Spec2Isabelle
  imports Complex_Main "HOL-Library.Word" "HOL-Library.Multiset" "HOL-Library.Log_Nat"
begin

unbundle bit_operations_syntax

section \<open>Data model\<close>

text \<open>
  A numpy image of dtype uint8 and shape (rows, columns, 3): the two leading shape entries
  are kept beside the pixel rows, as numpy keeps them (an array of shape (0, 5, 3) has no
  row, and still five columns). A sample is an unsigned byte.

  A Python float is a rational number. Where the program turns a float into an integer (the
  width of a resized crop, the samples of an enhanced image) the floating-point operations
  are rounded as IEEE 754 rounds them, in double or in single precision. The two percentages
  and the growth figures stay floats; their arithmetic is kept exact.
\<close>

type_synonym sample = "8 word"

type_synonym pixel = "sample \<times> sample \<times> sample"

record image =
  img_h :: nat
  img_w :: nat
  img_rows :: "pixel list list"

definition wf_image :: "image \<Rightarrow> bool" where
  "wf_image im \<longleftrightarrow>
     length (img_rows im) = img_h im \<and> list_all (\<lambda>r. length r = img_w im) (img_rows im)"

datatype error =
    FileNotFoundError
  | ValueError
  | ZeroDivisionError
  | CvError
  | ModelLoadError
  | InferenceError

text \<open>Python's true division of two numbers: a zero divisor raises.\<close>

definition py_div :: "rat \<Rightarrow> rat \<Rightarrow> error + rat" where
  "py_div a b = (if b = 0 then Inl ZeroDivisionError else Inr (a / b))"

section \<open>Floating-point rounding\<close>

text \<open>
  Rounding to the nearest integer, ties to the even one: the rounding of IEEE 754 and of
  \<^verbatim>\<open>cvRound\<close>.
\<close>

definition round_half_even :: "rat \<Rightarrow> int" where
  "round_half_even q =
     (let f = \<lfloor>q\<rfloor>; d = q - of_int f
      in if d < 1 / 2 then f else if 1 / 2 < d then f + 1 else if even f then f else f + 1)"

text \<open>The binary exponent of a positive rational \<open>x\<close>: the \<open>e\<close> with \<open>2^e \<le> x < 2^(e+1)\<close>.\<close>

definition ilog2 :: "rat \<Rightarrow> int" where
  "ilog2 x =
     (case quotient_of x of (a, b) \<Rightarrow>
        (let d = bitlen a - bitlen b in if 2 powi d \<le> x then d else d - 1))"

text \<open>
  The nearest binary floating-point number with \<open>p\<close> significant bits and least exponent
  \<open>emin\<close> (below it the numbers are subnormal, with the spacing of \<open>emin\<close>), ties to even.
  The exponent has no upper limit here; where the program can reach the largest float, the
  caller of this function tests it.
\<close>

definition fl_round :: "nat \<Rightarrow> int \<Rightarrow> rat \<Rightarrow> rat" where
  "fl_round p emin x =
     (if x = 0 then 0
      else (let e = max (ilog2 \<bar>x\<bar>) emin; q = 2 powi (e - int p + 1)
            in of_int (round_half_even (x / q)) * q))"

text \<open>Single precision (C float, numpy float32) and double precision (Python float).\<close>

definition fl32 :: "rat \<Rightarrow> rat" where
  "fl32 = fl_round 24 (- 126)"

definition fl64 :: "rat \<Rightarrow> rat" where
  "fl64 = fl_round 53 (- 1022)"

text \<open>Whether a number rounds to a finite single-precision float, not to infinity.\<close>

definition f32_finite :: "rat \<Rightarrow> bool" where
  "f32_finite x \<longleftrightarrow> \<bar>x\<bar> < 2 ^ 128 - 2 ^ 103"

section \<open>Coverage measurement (analyzer.py, calculate_plant_percentage, lines 92-111)\<close>

record analyzer =
  lower_green :: "int \<times> int \<times> int"
  upper_green :: "int \<times> int \<times> int"
  lower_purple :: "int \<times> int \<times> int"
  upper_purple :: "int \<times> int \<times> int"

text \<open>
  \<^verbatim>\<open>cv2.cvtColor\<close> converts pixel by pixel and keeps the shape; the conversion of one
  pixel is a parameter of the model. OpenCV rejects an array without pixels
  (\<^verbatim>\<open>!_src.empty()\<close>) and raises \<^verbatim>\<open>cv2.error\<close>.
\<close>

definition convert_pixels :: "(pixel \<Rightarrow> pixel) \<Rightarrow> image \<Rightarrow> image" where
  "convert_pixels conv im = im\<lparr>img_rows := map (map conv) (img_rows im)\<rparr>"

definition cvtColor :: "(pixel \<Rightarrow> pixel) \<Rightarrow> image \<Rightarrow> error + image" where
  "cvtColor conv im =
     (if img_h im * img_w im = 0 then Inl CvError else Inr (convert_pixels conv im))"

definition in_bounds :: "int \<times> int \<times> int \<Rightarrow> int \<times> int \<times> int \<Rightarrow> pixel \<Rightarrow> bool" where
  "in_bounds lo hi p =
     (case lo of (l0, l1, l2) \<Rightarrow> case hi of (u0, u1, u2) \<Rightarrow> case p of (c0, c1, c2) \<Rightarrow>
        l0 \<le> uint c0 \<and> uint c0 \<le> u0 \<and>
        l1 \<le> uint c1 \<and> uint c1 \<le> u1 \<and>
        l2 \<le> uint c2 \<and> uint c2 \<le> u2)"

text \<open>\<^verbatim>\<open>cv2.inRange\<close>: a mask holding 255 where the pixel is inside the bounds, 0 elsewhere.\<close>

definition inRange :: "image \<Rightarrow> int \<times> int \<times> int \<Rightarrow> int \<times> int \<times> int \<Rightarrow> sample list list" where
  "inRange im lo hi = map (map (\<lambda>p. if in_bounds lo hi p then 255 else 0)) (img_rows im)"

definition bitwise_or :: "sample list list \<Rightarrow> sample list list \<Rightarrow> sample list list" where
  "bitwise_or a b = map (\<lambda>(ra, rb). map (\<lambda>(x, y). x OR y) (zip ra rb)) (zip a b)"

definition countNonZero :: "sample list list \<Rightarrow> nat" where
  "countNonZero m = length (filter (\<lambda>v. v \<noteq> 0) (concat m))"

definition measure_coverage :: "(pixel \<Rightarrow> pixel) \<Rightarrow> analyzer \<Rightarrow> image \<Rightarrow> error + rat" where
  "measure_coverage bgr2hsv a img =
     (case cvtColor bgr2hsv img of
        Inl e \<Rightarrow> Inl e
      | Inr hsv \<Rightarrow>
          (let green_mask = inRange hsv (lower_green a) (upper_green a);
               purple_mask = inRange hsv (lower_purple a) (upper_purple a);
               plant_mask = bitwise_or green_mask purple_mask;
               total_pixels = img_h img * img_w img;
               plant_pixels = countNonZero plant_mask
           in if total_pixels = 0 then Inr 0
              else case py_div (of_nat plant_pixels) (of_nat total_pixels) of
                     Inl e \<Rightarrow> Inl e
                   | Inr q \<Rightarrow> Inr (q * 100)))"

text \<open>
  The count the specification speaks of: the pixels of the image whose HSV value lies
  inside the first range or inside the second one.
\<close>

definition matching_pixels :: "(pixel \<Rightarrow> pixel) \<Rightarrow> analyzer \<Rightarrow> image \<Rightarrow> nat" where
  "matching_pixels to_hsv a img =
     length (filter (\<lambda>p. in_bounds (lower_green a) (upper_green a) (to_hsv p) \<or>
                          in_bounds (lower_purple a) (upper_purple a) (to_hsv p))
               (concat (img_rows img)))"

section \<open>Growth arithmetic (analyzer.py, compare_images, lines 132-136)\<close>

record growth =
  absolute :: rat
  relative :: rat

definition growth_of :: "rat \<Rightarrow> rat \<Rightarrow> error + growth" where
  "growth_of img1_percentage img2_percentage =
     (let absolute_growth = img2_percentage - img1_percentage
      in if img1_percentage > 0
         then (case py_div absolute_growth img1_percentage of
                 Inl e \<Rightarrow> Inl e
               | Inr q \<Rightarrow> Inr \<lparr>absolute = absolute_growth, relative = q * 100\<rparr>)
         else Inr \<lparr>absolute = absolute_growth, relative = 0\<rparr>)"

section \<open>Enhancement (analyzer.py, enhance_image, lines 26-50)\<close>

text \<open>
  \<^verbatim>\<open>cv2.convertScaleAbs(src, alpha, beta)\<close> is an OpenCV primitive. Its documented contract
  is \<^verbatim>\<open>dst = saturate_cast<uchar>(|src * alpha + beta|)\<close> on every sample. For 8-bit
  samples OpenCV converts \<open>alpha\<close> and \<open>beta\<close> to single precision, computes the
  multiply-add in single precision with one rounding, takes the absolute value, rounds to
  a 32-bit integer (\<^verbatim>\<open>cvRound\<close>: ties to even; a value outside the 32-bit range, an
  infinity or a NaN gives the least 32-bit integer, as the conversion instruction of x86
  does) and saturates to 0..255.
\<close>

definition cvRound :: "rat \<Rightarrow> int" where
  "cvRound q =
     (let n = round_half_even q
      in if - (2 ^ 31) \<le> n \<and> n < 2 ^ 31 then n else - (2 ^ 31))"

definition saturate_u8 :: "int \<Rightarrow> sample" where
  "saturate_u8 i = word_of_int (max 0 (min 255 i))"

definition scale_abs_sample :: "rat \<Rightarrow> rat \<Rightarrow> sample \<Rightarrow> sample" where
  "scale_abs_sample alpha beta v =
     (if f32_finite alpha \<and> f32_finite beta
      then saturate_u8 (cvRound \<bar>fl32 (of_int (uint v) * fl32 alpha + fl32 beta)\<bar>)
      else saturate_u8 (- (2 ^ 31)))"

definition map_samples :: "(sample \<Rightarrow> sample) \<Rightarrow> image \<Rightarrow> image" where
  "map_samples f im =
     im\<lparr>img_rows := map (map (\<lambda>(c0, c1, c2). (f c0, f c1, f c2))) (img_rows im)\<rparr>"

definition convertScaleAbs :: "image \<Rightarrow> rat \<Rightarrow> rat \<Rightarrow> image" where
  "convertScaleAbs im alpha beta = map_samples (scale_abs_sample alpha beta) im"

text \<open>
  The saturation channel of one HSV pixel: the float32 array is multiplied by the Python
  float, which numpy takes in single precision, the product being a float32; it is clipped
  to 0..255 by \<^verbatim>\<open>np.clip\<close>, and truncated by \<^verbatim>\<open>astype(np.uint8)\<close>.
\<close>

definition scale_saturation :: "rat \<Rightarrow> pixel \<Rightarrow> pixel" where
  "scale_saturation saturation p =
     (case p of (h, s, v) \<Rightarrow>
        (h, word_of_int \<lfloor>min 255 (max 0 (fl32 (of_int (uint s) * fl32 saturation)))\<rfloor>, v))"

text \<open>
  enhance_image. The sum \<^verbatim>\<open>1.0 + contrast\<close> is a double. The function is called on
  images of at least one pixel (what \<^verbatim>\<open>cv2.imread\<close> and crop_front_panel return), on which
  \<^verbatim>\<open>cv2.cvtColor\<close> converts the pixels and raises nothing.
\<close>

definition enhance_image ::
  "(pixel \<Rightarrow> pixel) \<Rightarrow> (pixel \<Rightarrow> pixel) \<Rightarrow> image \<Rightarrow> rat \<Rightarrow> rat \<Rightarrow> rat \<Rightarrow> image" where
  "enhance_image bgr2hsv hsv2bgr img brightness contrast saturation =
     (let img_enhanced = convertScaleAbs img (fl64 (1 + contrast)) brightness
      in if saturation \<noteq> 1
         then (let hsv = convert_pixels bgr2hsv img_enhanced;
                   hsv' = hsv\<lparr>img_rows := map (map (scale_saturation saturation)) (img_rows hsv)\<rparr>
               in convert_pixels hsv2bgr hsv')
         else img_enhanced)"

text \<open>The formula of the specification for one sample, before any rounding.\<close>

definition spec_clamp_sample :: "rat \<Rightarrow> rat \<Rightarrow> sample \<Rightarrow> rat" where
  "spec_clamp_sample brightness contrast v =
     max 0 (min 255 (of_int (uint v) * (1 + contrast) + brightness))"

section \<open>Panel extraction (cropper.py and crop.py, crop_front_panel)\<close>

text \<open>A detection after \<^verbatim>\<open>astype(int)\<close>: the corners (x1, y1, x2, y2).\<close>

type_synonym box = "int \<times> int \<times> int \<times> int"

definition box_x1 :: "box \<Rightarrow> int" where
  "box_x1 d = (case d of (x1, y1, x2, y2) \<Rightarrow> x1)"

text \<open>
  A bound of a Python slice over a sequence of length \<open>n\<close>: a negative bound counts from
  the end, and every bound is brought into \<open>0..n\<close>.
\<close>

definition slice_bound :: "int \<Rightarrow> nat \<Rightarrow> nat" where
  "slice_bound i n = (if i < 0 then nat (max 0 (i + int n)) else min (nat i) n)"

definition py_slice :: "int \<Rightarrow> int \<Rightarrow> 'a list \<Rightarrow> 'a list" where
  "py_slice a b xs =
     (let s = slice_bound a (length xs); e = slice_bound b (length xs)
      in take (e - s) (drop s xs))"

text \<open>\<^verbatim>\<open>img[ya:yb, xa:xb]\<close>\<close>

definition slice2 :: "image \<Rightarrow> int \<Rightarrow> int \<Rightarrow> int \<Rightarrow> int \<Rightarrow> image" where
  "slice2 img ya yb xa xb =
     \<lparr>img_h = slice_bound yb (img_h img) - slice_bound ya (img_h img),
      img_w = slice_bound xb (img_w img) - slice_bound xa (img_w img),
      img_rows = map (py_slice xa xb) (py_slice ya yb (img_rows img))\<rparr>"

definition img_size :: "image \<Rightarrow> nat" where
  "img_size im = img_h im * img_w im * 3"

text \<open>Lines 77-82 of cropper.py: clip the corners, then slice.\<close>

definition crop_box :: "image \<Rightarrow> box \<Rightarrow> image" where
  "crop_box img d =
     (case d of (x1, y1, x2, y2) \<Rightarrow>
        (let h_img = img_h img; w_img = img_w img;
             x1' = max 0 x1; y1' = max 0 y1;
             x2' = min (int w_img) x2; y2' = min (int h_img) y2
         in slice2 img y1' y2' x1' x2'))"

text \<open>
  Lines 64-84: the detections are sorted by their reported left edge (Python's sort is
  stable, as \<^const>\<open>sort_key\<close> is), cropped in that order, and the empty crops dropped.
\<close>

definition collect_crops :: "image \<Rightarrow> box list \<Rightarrow> image list" where
  "collect_crops img boxes =
     filter (\<lambda>crop. img_size crop > 0) (map (crop_box img) (sort_key box_x1 boxes))"

fun max_height :: "image list \<Rightarrow> nat" where
  "max_height [] = 0"
| "max_height (c # cs) = max (img_h c) (max_height cs)"

text \<open>\<^verbatim>\<open>int(x)\<close> on a float truncates towards zero.\<close>

definition py_int :: "rat \<Rightarrow> int" where
  "py_int q = (if q < 0 then \<lceil>q\<rceil> else \<lfloor>q\<rfloor>)"

text \<open>
  \<^verbatim>\<open>cv2.resize(c, (new_w, max_h))\<close> interpolates; the interpolation is a parameter
  \<open>resize c new_w max_h\<close> of the model. OpenCV rejects a target size that is not positive.
\<close>

type_synonym resizer = "image \<Rightarrow> nat \<Rightarrow> nat \<Rightarrow> image"

text \<open>
  Lines 95-96: \<^verbatim>\<open>scale = max_h / h\<close> is the quotient of two integers, rounded once to a
  double; \<^verbatim>\<open>new_w = int(w * scale)\<close> converts \<open>w\<close> to a double, multiplies in double
  precision and truncates.
\<close>

definition py_truediv :: "nat \<Rightarrow> nat \<Rightarrow> error + rat" where
  "py_truediv a b = (if b = 0 then Inl ZeroDivisionError else Inr (fl64 (of_nat a / of_nat b)))"

definition new_width :: "nat \<Rightarrow> nat \<Rightarrow> nat \<Rightarrow> error + int" where
  "new_width max_h h w =
     (case py_truediv max_h h of
        Inl e \<Rightarrow> Inl e
      | Inr scale \<Rightarrow> Inr (py_int (fl64 (fl64 (of_nat w) * scale))))"

definition resize_crop :: "resizer \<Rightarrow> nat \<Rightarrow> image \<Rightarrow> error + image" where
  "resize_crop resize max_h c =
     (let h = img_h c; w = img_w c
      in if h \<noteq> max_h
         then (case new_width max_h h w of
                 Inl e \<Rightarrow> Inl e
               | Inr new_w \<Rightarrow>
                   if new_w \<le> 0 \<or> max_h = 0 then Inl CvError
                   else Inr (resize c (nat new_w) max_h))
         else Inr c)"

fun resize_crops :: "resizer \<Rightarrow> nat \<Rightarrow> image list \<Rightarrow> error + image list" where
  "resize_crops resize max_h [] = Inr []"
| "resize_crops resize max_h (c # cs) =
     (case resize_crop resize max_h c of
        Inl e \<Rightarrow> Inl e
      | Inr r \<Rightarrow>
          (case resize_crops resize max_h cs of
             Inl e \<Rightarrow> Inl e
           | Inr rs \<Rightarrow> Inr (r # rs)))"

text \<open>\<^verbatim>\<open>cv2.hconcat\<close>: the images side by side; OpenCV rejects differing heights.\<close>

definition hconcat :: "image list \<Rightarrow> error + image" where
  "hconcat ims =
     (if ims = [] \<or> \<not> list_all (\<lambda>im. img_h im = img_h (hd ims)) ims then Inl CvError
      else Inr \<lparr>img_h = img_h (hd ims),
                img_w = sum_list (map img_w ims),
                img_rows = map (\<lambda>i. concat (map (\<lambda>im. img_rows im ! i) ims)) [0..<img_h (hd ims)]\<rparr>)"

text \<open>
  Lines 86-104: one crop is returned as it is, two or more are brought to the height of
  the tallest and joined, none leaves the source image. The flag tells whether the crops
  were merged (the source logs it).
\<close>

definition select_panel :: "resizer \<Rightarrow> image \<Rightarrow> image list \<Rightarrow> error + image \<times> bool" where
  "select_panel resize img crops =
     (if length crops = 1 then Inr (hd crops, False)
      else if length crops \<ge> 2
      then (let max_h = max_height crops
            in case resize_crops resize max_h crops of
                 Inl e \<Rightarrow> Inl e
               | Inr resized_crops \<Rightarrow>
                   (case hconcat resized_crops of
                      Inl e \<Rightarrow> Inl e
                    | Inr final_img \<Rightarrow> Inr (final_img, True)))
      else Inr (img, False))"

section \<open>The environment, the detector handle and the log\<close>

text \<open>
  What the program reads from outside: the file system (\<^verbatim>\<open>os.path.exists\<close>), the image
  codec (\<^verbatim>\<open>cv2.imread\<close> returns None for an unreadable file), whether constructing the YOLO
  model from the weights succeeds, what a call of the model on a path returns (None when
  the inference raises), and whether OpenCV has an encoder for the extension of a file name
  (\<^verbatim>\<open>cv2.imwrite\<close> raises \<^verbatim>\<open>cv2.error\<close> when it has none).
\<close>

record world =
  path_exists :: "string \<Rightarrow> bool"
  imread :: "string \<Rightarrow> image option"
  yolo_loads :: bool
  yolo_infer :: "string \<Rightarrow> box list option"
  has_writer :: "string \<Rightarrow> bool"

datatype level = INFO | WARNING | ERROR

datatype event = Log level string | Print string | ImWrite string image

text \<open>
  What the program changes: the module-level detector handle (loaded or not) and, in order,
  the log records, the printed lines and the calls of \<^verbatim>\<open>cv2.imwrite\<close> that returned. A
  message is recorded by its fixed text, without the interpolated path, count or exception.
\<close>

record runtime =
  model_loaded :: bool
  events :: "event list"

definition emit :: "event \<Rightarrow> runtime \<Rightarrow> runtime" where
  "emit e s = s\<lparr>events := events s @ [e]\<rparr>"

definition MODEL_WEIGHTS_PATH :: string where
  "MODEL_WEIGHTS_PATH = ''Model/weights.pt''"

definition imwrite :: "world \<Rightarrow> string \<Rightarrow> image \<Rightarrow> runtime \<Rightarrow> error + runtime" where
  "imwrite w p im s = (if has_writer w p then Inr (emit (ImWrite p im) s) else Inl CvError)"

subsection \<open>cropper.py\<close>

definition load_model :: "world \<Rightarrow> runtime \<Rightarrow> (error + unit) \<times> runtime" where
  "load_model w s =
     (if \<not> model_loaded s
      then (if \<not> path_exists w MODEL_WEIGHTS_PATH
            then (Inl FileNotFoundError, emit (Log ERROR ''Model weights not found'') s)
            else (let s1 = emit (Log INFO ''Loading YOLO model'') s
                  in if yolo_loads w then (Inr (), s1\<lparr>model_loaded := True\<rparr>)
                     else (Inl ModelLoadError, emit (Log ERROR ''Failed to load model'') s1)))
      else (Inr (), s))"

text \<open>The body of the \<^verbatim>\<open>try\<close> block, lines 53-55.\<close>

definition detect :: "world \<Rightarrow> string \<Rightarrow> runtime \<Rightarrow> (error + box list) \<times> runtime" where
  "detect w image_path s =
     (case load_model w s of
        (Inl e, s') \<Rightarrow> (Inl e, s')
      | (Inr u, s') \<Rightarrow>
          (case yolo_infer w image_path of
             None \<Rightarrow> (Inl InferenceError, s')
           | Some boxes \<Rightarrow> (Inr boxes, s')))"

text \<open>Lines 108-110: \<^verbatim>\<open>if out_path:\<close> holds for a string that is not empty.\<close>

definition save_panel :: "world \<Rightarrow> string option \<Rightarrow> image \<Rightarrow> runtime \<Rightarrow> error + runtime" where
  "save_panel w out_path final_img s =
     (case out_path of
        None \<Rightarrow> Inr s
      | Some p \<Rightarrow>
          if p \<noteq> []
          then (case imwrite w p final_img s of
                  Inl e \<Rightarrow> Inl e
                | Inr s' \<Rightarrow> Inr (emit (Log INFO ''Saved cropped image'') s'))
          else Inr s)"

text \<open>The end of crop_front_panel, lines 108-112: save, then return the pair.\<close>

definition finish_panel ::
  "world \<Rightarrow> string option \<Rightarrow> image \<Rightarrow> runtime \<Rightarrow> (error + image \<times> string option) \<times> runtime" where
  "finish_panel w out_path final_img s =
     (case save_panel w out_path final_img s of
        Inl e \<Rightarrow> (Inl e, s)
      | Inr s' \<Rightarrow> (Inr (final_img, out_path), s'))"

definition crop_front_panel ::
  "world \<Rightarrow> resizer \<Rightarrow> string \<Rightarrow> string option \<Rightarrow> runtime
     \<Rightarrow> (error + image \<times> string option) \<times> runtime" where
  "crop_front_panel w resize image_path out_path s0 =
     (let s1 = emit (Log INFO ''Processing image for cropping'') s0
      in case imread w image_path of
           None \<Rightarrow> (Inl ValueError, emit (Log ERROR ''Could not read image'') s1)
         | Some img \<Rightarrow>
             (case detect w image_path s1 of
                (Inl e, s2) \<Rightarrow> (Inr (img, out_path), emit (Log ERROR ''Inference failed'') s2)
              | (Inr boxes, s2) \<Rightarrow>
                  if length boxes > 0
                  then (let s3 = emit (Log INFO ''Detected objects'') s2
                        in case select_panel resize img (collect_crops img boxes) of
                             Inl e \<Rightarrow> (Inl e, s3)
                           | Inr (final_img, merged) \<Rightarrow>
                               (let s4 = (if merged
                                          then emit (Log INFO ''Merged detected sides into one image'') s3
                                          else s3)
                                in finish_panel w out_path final_img s4))
                  else (let s3 = emit (Log WARNING ''No object detected. Returning original image.'') s2
                        in finish_panel w out_path img s3)))"

subsection \<open>crop.py, the module beside the package\<close>

definition legacy_load_model :: "world \<Rightarrow> runtime \<Rightarrow> (error + unit) \<times> runtime" where
  "legacy_load_model w s =
     (if \<not> model_loaded s
      then (if \<not> path_exists w MODEL_WEIGHTS_PATH
            then (Inl FileNotFoundError, s)
            else (let s1 = emit (Print ''Loading YOLO model'') s
                  in if yolo_loads w then (Inr (), s1\<lparr>model_loaded := True\<rparr>)
                     else (Inl ModelLoadError, s1)))
      else (Inr (), s))"

definition legacy_finish_panel ::
  "world \<Rightarrow> string option \<Rightarrow> image \<Rightarrow> runtime \<Rightarrow> (error + image \<times> string option) \<times> runtime" where
  "legacy_finish_panel w out_path final_img s =
     (case out_path of
        None \<Rightarrow> (Inr (final_img, out_path), s)
      | Some p \<Rightarrow>
          if p \<noteq> []
          then (case imwrite w p final_img s of
                  Inl e \<Rightarrow> (Inl e, s)
                | Inr s' \<Rightarrow> (Inr (final_img, out_path), s'))
          else (Inr (final_img, out_path), s))"

definition legacy_crop_front_panel ::
  "world \<Rightarrow> resizer \<Rightarrow> string \<Rightarrow> string option \<Rightarrow> runtime
     \<Rightarrow> (error + image \<times> string option) \<times> runtime" where
  "legacy_crop_front_panel w resize image_path out_path s0 =
     (case imread w image_path of
        None \<Rightarrow> (Inl ValueError, s0)
      | Some img \<Rightarrow>
          (case legacy_load_model w s0 of
             (Inl e, s1) \<Rightarrow> (Inl e, s1)
           | (Inr u, s1) \<Rightarrow>
               (case yolo_infer w image_path of
                  None \<Rightarrow> (Inl InferenceError, s1)
                | Some boxes \<Rightarrow>
                    if length boxes > 0
                    then (case select_panel resize img (collect_crops img boxes) of
                            Inl e \<Rightarrow> (Inl e, s1)
                          | Inr (final_img, merged) \<Rightarrow>
                              (let s2 = (if merged
                                         then emit (Print ''Merged detected sides into one image.'') s1
                                         else s1)
                               in legacy_finish_panel w out_path final_img s2))
                    else (let s2 = emit (Print ''Warning: No object detected. Returning original image.'') s1
                          in legacy_finish_panel w out_path img s2))))"

section \<open>The pipeline (analyzer.py, calculate_plant_percentage and compare_images)\<close>

definition basename :: "string \<Rightarrow> string" where
  "basename p = rev (takeWhile (\<lambda>c. c \<noteq> CHR ''/'') (rev p))"

text \<open>\<^verbatim>\<open>enhance_params.get(key, default)\<close> on a dictionary given as its items.\<close>

definition dict_get :: "(string \<times> rat) list \<Rightarrow> string \<Rightarrow> rat \<Rightarrow> rat" where
  "dict_get d key dflt = (case map_of d key of None \<Rightarrow> dflt | Some v \<Rightarrow> v)"

record converters =
  bgr2hsv :: "pixel \<Rightarrow> pixel"
  hsv2bgr :: "pixel \<Rightarrow> pixel"

definition load_image ::
  "world \<Rightarrow> resizer \<Rightarrow> string \<Rightarrow> bool \<Rightarrow> bool \<Rightarrow> runtime \<Rightarrow> (error + image) \<times> runtime" where
  "load_image w resize image_path do_crop save_debug s =
     (if do_crop
      then (let debug_crop_path =
                  (if save_debug then Some (''debug_cropped_'' @ basename image_path) else None)
            in case crop_front_panel w resize image_path debug_crop_path s of
                 (Inl e, s') \<Rightarrow> (Inl e, s')
               | (Inr (img, p), s') \<Rightarrow> (Inr img, s'))
      else (case imread w image_path of
              None \<Rightarrow> (Inl ValueError, emit (Log ERROR ''Could not read image'') s)
            | Some img \<Rightarrow> (Inr img, s)))"

definition apply_enhancement ::
  "world \<Rightarrow> converters \<Rightarrow> string \<Rightarrow> (string \<times> rat) list option \<Rightarrow> bool \<Rightarrow> image \<Rightarrow> runtime
     \<Rightarrow> (error + image) \<times> runtime" where
  "apply_enhancement w cv image_path enhance_params save_debug img s =
     (case enhance_params of
        None \<Rightarrow> (Inr img, s)
      | Some d \<Rightarrow>
          if d = [] then (Inr img, s)
          else (let s1 = emit (Log INFO ''Applying enhancement'') s;
                    img' = enhance_image (bgr2hsv cv) (hsv2bgr cv) img
                             (dict_get d ''brightness'' 0)
                             (dict_get d ''contrast'' 0)
                             (dict_get d ''saturation'' 1)
                in if save_debug
                   then (case imwrite w (''debug_enhanced_'' @ basename image_path) img' s1 of
                           Inl e \<Rightarrow> (Inl e, s1)
                         | Inr s2 \<Rightarrow> (Inr img', s2))
                   else (Inr img', s1)))"

definition calculate_plant_percentage ::
  "world \<Rightarrow> resizer \<Rightarrow> converters \<Rightarrow> analyzer \<Rightarrow> string \<Rightarrow> bool
     \<Rightarrow> (string \<times> rat) list option \<Rightarrow> bool \<Rightarrow> runtime \<Rightarrow> (error + rat) \<times> runtime" where
  "calculate_plant_percentage w resize cv a image_path do_crop enhance_params save_debug s =
     (if \<not> path_exists w image_path
      then (Inl FileNotFoundError, emit (Log ERROR ''Image file not found'') s)
      else (let s1 = emit (Log INFO ''Analyzing image'') s
            in case load_image w resize image_path do_crop save_debug s1 of
                 (Inl e, s2) \<Rightarrow> (Inl e, s2)
               | (Inr img, s2) \<Rightarrow>
                   (case apply_enhancement w cv image_path enhance_params save_debug img s2 of
                      (Inl e, s3) \<Rightarrow> (Inl e, s3)
                    | (Inr img', s3) \<Rightarrow>
                        (case measure_coverage (bgr2hsv cv) a img' of
                           Inl e \<Rightarrow> (Inl e, s3)
                         | Inr plant_percentage \<Rightarrow>
                             (Inr plant_percentage,
                              if img_h img' * img_w img' = 0 then s3
                              else emit (Log INFO ''Plant percentage'') s3)))))"

record comparison =
  image1_percentage :: rat
  image2_percentage :: rat
  growth_stats :: growth

definition compare_images ::
  "world \<Rightarrow> resizer \<Rightarrow> converters \<Rightarrow> analyzer \<Rightarrow> string \<Rightarrow> string \<Rightarrow> bool
     \<Rightarrow> (string \<times> rat) list option \<Rightarrow> runtime \<Rightarrow> (error + comparison) \<times> runtime" where
  "compare_images w resize cv a img1_path img2_path do_crop enhance_params s =
     (let s0 = emit (Log INFO ''Comparing images'') s
      in case calculate_plant_percentage w resize cv a img1_path do_crop enhance_params True s0 of
           (Inl e, s1) \<Rightarrow> (Inl e, s1)
         | (Inr img1_percentage, s1) \<Rightarrow>
             (case calculate_plant_percentage w resize cv a img2_path do_crop enhance_params True s1 of
                (Inl e, s2) \<Rightarrow> (Inl e, s2)
              | (Inr img2_percentage, s2) \<Rightarrow>
                  (case growth_of img1_percentage img2_percentage of
                     Inl e \<Rightarrow> (Inl e, s2)
                   | Inr g \<Rightarrow>
                       (Inr \<lparr>image1_percentage = img1_percentage,
                             image2_percentage = img2_percentage,
                             growth_stats = g\<rparr>, s2))))"

section \<open>The specification's view of a detection\<close>

text \<open>
  The box clipped to the image as the specification describes it, its width and height,
  and whether it survives (positive area after clipping). The last predicate says that the
  lower right corner of the reported box is not negative.
\<close>

definition clip_box :: "image \<Rightarrow> box \<Rightarrow> box" where
  "clip_box img d =
     (case d of (x1, y1, x2, y2) \<Rightarrow>
        (max 0 x1, max 0 y1, min (int (img_w img)) x2, min (int (img_h img)) y2))"

definition clipped_width :: "image \<Rightarrow> box \<Rightarrow> int" where
  "clipped_width img d = (case clip_box img d of (x1, y1, x2, y2) \<Rightarrow> x2 - x1)"

definition clipped_height :: "image \<Rightarrow> box \<Rightarrow> int" where
  "clipped_height img d = (case clip_box img d of (x1, y1, x2, y2) \<Rightarrow> y2 - y1)"

definition positive_area :: "image \<Rightarrow> box \<Rightarrow> bool" where
  "positive_area img d \<longleftrightarrow> 0 < clipped_width img d \<and> 0 < clipped_height img d"

definition corner_not_negative :: "box \<Rightarrow> bool" where
  "corner_not_negative d = (case d of (x1, y1, x2, y2) \<Rightarrow> 0 \<le> x2 \<and> 0 \<le> y2)"

text \<open>
  The double \<^verbatim>\<open>w * scale\<close> of line 96 for a crop of width \<open>w\<close> and height \<open>h\<close>, the width it
  is truncated to, and what the loop of lines 92-100 makes of one crop when it raises no
  error.
\<close>

definition float_width :: "nat \<Rightarrow> nat \<Rightarrow> nat \<Rightarrow> rat" where
  "float_width max_h h w = fl64 (fl64 (of_nat w) * fl64 (of_nat max_h / of_nat h))"

definition scaled_width :: "nat \<Rightarrow> nat \<Rightarrow> nat \<Rightarrow> nat" where
  "scaled_width max_h h w = nat \<lfloor>float_width max_h h w\<rfloor>"

definition scale_to :: "resizer \<Rightarrow> nat \<Rightarrow> image \<Rightarrow> image" where
  "scale_to resize max_h c =
     (if img_h c \<noteq> max_h then resize c (scaled_width max_h (img_h c) (img_w c)) max_h else c)"

section \<open>Concrete inputs\<close>

text \<open>
  A small environment on which the definitions are evaluated: three readable one-row
  images (no, one and two green pixels under the identity conversion), the configured HSV
  ranges of config.py, and a resizer that fills the requested size with black.
\<close>

definition demo_analyzer :: analyzer where
  "demo_analyzer = \<lparr>lower_green = (35, 40, 40), upper_green = (85, 255, 255),
     lower_purple = (125, 40, 40), upper_purple = (155, 255, 255)\<rparr>"

definition demo_world :: world where
  "demo_world = \<lparr>path_exists = (\<lambda>p. True),
     imread = (\<lambda>p. if p = ''a.jpg'' then Some \<lparr>img_h = 1, img_w = 2, img_rows = [[(0, 0, 0), (0, 0, 0)]]\<rparr>
                    else if p = ''b.jpg'' then Some \<lparr>img_h = 1, img_w = 2, img_rows = [[(60, 200, 200), (0, 0, 0)]]\<rparr>
                    else Some \<lparr>img_h = 1, img_w = 2, img_rows = [[(60, 200, 200), (140, 90, 90)]]\<rparr>),
     yolo_loads = True, yolo_infer = (\<lambda>p. Some []), has_writer = (\<lambda>p. True)\<rparr>"

definition demo_cv :: converters where
  "demo_cv = \<lparr>bgr2hsv = id, hsv2bgr = id\<rparr>"

definition demo_resize :: resizer where
  "demo_resize c w h = \<lparr>img_h = h, img_w = w, img_rows = replicate h (replicate w (0, 0, 0))\<rparr>"

definition fresh :: runtime where
  "fresh = \<lparr>model_loaded = False, events = []\<rparr>"

text \<open>
  An environment in which every path reads as the given image, the weights file exists or
  not, and the detector returns the given boxes (or raises, for None); and a 2 x 2 image of
  four different pixels.
\<close>

definition world_of :: "image \<Rightarrow> bool \<Rightarrow> box list option \<Rightarrow> world" where
  "world_of img weights boxes =
     \<lparr>path_exists = (\<lambda>p. if p = MODEL_WEIGHTS_PATH then weights else True),
      imread = (\<lambda>p. Some img), yolo_loads = True, yolo_infer = (\<lambda>p. boxes),
      has_writer = (\<lambda>p. True)\<rparr>"

definition quad :: image where
  "quad = \<lparr>img_h = 2, img_w = 2,
            img_rows = [[(1, 1, 1), (2, 2, 2)], [(3, 3, 3), (4, 4, 4)]]\<rparr>"

section \<open>Properties\<close>

subsection \<open>Floating-point rounding\<close>

lemma round_half_even_of_int: "round_half_even (of_int k) = k"
  by (simp add: round_half_even_def Let_def)

lemma round_half_even_ge_floor: "\<lfloor>q\<rfloor> \<le> round_half_even q"
  by (simp add: round_half_even_def Let_def)



lemma pow2_less_exp:
  assumes "(2 :: rat) powi m < 2 powi n"
  shows "m < n"
proof (rule ccontr)
  assume "\<not> m < n"
  then have "n \<le> m" by simp
  then have "(2 :: rat) powi n \<le> 2 powi m" by (intro power_int_increasing) simp_all
  then show False using assms by simp
qed

lemma ilog2_bounds:
  assumes "0 < x"
  shows "2 powi (ilog2 x) \<le> x \<and> x < 2 powi (ilog2 x + 1)"
proof -
  obtain a b where q: "quotient_of x = (a, b)" by (cases "quotient_of x")
  have b: "0 < b" using q by (rule quotient_of_denom_pos)
  have x: "x = of_int a / of_int b" using q by (rule quotient_of_div)
  have a: "0 < a" using assms b x by (simp add: zero_less_divide_iff)
  let ?la = "bitlen a" and ?lb = "bitlen b"
  have la: "1 \<le> ?la" and lb: "1 \<le> ?lb" using a b by (auto simp: bitlen_alt_def)
  have ba: "2 ^ nat (?la - 1) \<le> a" "a < 2 ^ nat ?la" using bitlen_bounds [OF a] by auto
  have bb: "2 ^ nat (?lb - 1) \<le> b" "b < 2 ^ nat ?lb" using bitlen_bounds [OF b] by auto
  have ra: "(2 :: rat) powi (?la - 1) \<le> of_int a" "(of_int a :: rat) < 2 powi ?la"
  proof -
    have "(of_int (2 ^ nat (?la - 1)) :: rat) \<le> of_int a" using ba(1) by (simp only: of_int_le_iff)
    moreover have "(2 :: rat) powi (?la - 1) = 2 ^ nat (?la - 1)" using la by (simp add: power_int_def)
    ultimately show "(2 :: rat) powi (?la - 1) \<le> of_int a" by simp
    have "(of_int a :: rat) < of_int (2 ^ nat ?la)" using ba(2) by (simp only: of_int_less_iff)
    moreover have "(2 :: rat) powi ?la = 2 ^ nat ?la" using la by (simp add: power_int_def)
    ultimately show "(of_int a :: rat) < 2 powi ?la" by simp
  qed
  have rb: "(2 :: rat) powi (?lb - 1) \<le> of_int b" "(of_int b :: rat) < 2 powi ?lb"
  proof -
    have "(of_int (2 ^ nat (?lb - 1)) :: rat) \<le> of_int b" using bb(1) by (simp only: of_int_le_iff)
    moreover have "(2 :: rat) powi (?lb - 1) = 2 ^ nat (?lb - 1)" using lb by (simp add: power_int_def)
    ultimately show "(2 :: rat) powi (?lb - 1) \<le> of_int b" by simp
    have "(of_int b :: rat) < of_int (2 ^ nat ?lb)" using bb(2) by (simp only: of_int_less_iff)
    moreover have "(2 :: rat) powi ?lb = 2 ^ nat ?lb" using lb by (simp add: power_int_def)
    ultimately show "(of_int b :: rat) < 2 powi ?lb" by simp
  qed
  have bpos: "(0 :: rat) < of_int b" using b by simp
  have low: "(2 :: rat) powi (?la - ?lb - 1) \<le> x"
  proof -
    have "(2 :: rat) powi (?la - ?lb - 1) * of_int b \<le> 2 powi (?la - ?lb - 1) * 2 powi ?lb"
      using rb(2) by (intro mult_left_mono) simp_all
    also have "\<dots> = 2 powi (?la - 1)" by (simp add: power_int_add [symmetric])
    also have "\<dots> \<le> of_int a" by (rule ra(1))
    finally show ?thesis unfolding x using bpos by (simp add: pos_le_divide_eq)
  qed
  have high: "x < (2 :: rat) powi (?la - ?lb + 1)"
  proof -
    have "(of_int a :: rat) < 2 powi ?la" by (rule ra(2))
    also have "\<dots> = 2 powi (?la - ?lb + 1) * 2 powi (?lb - 1)" by (simp add: power_int_add [symmetric])
    also have "\<dots> \<le> 2 powi (?la - ?lb + 1) * of_int b"
      using rb(1) by (intro mult_left_mono) simp_all
    finally show ?thesis unfolding x using bpos by (simp add: pos_divide_less_eq)
  qed
  show ?thesis
  proof (cases "(2 :: rat) powi (?la - ?lb) \<le> x")
    case True
    then have "ilog2 x = ?la - ?lb" by (simp add: ilog2_def q Let_def)
    then show ?thesis using True high by simp
  next
    case False
    then have "ilog2 x = ?la - ?lb - 1" by (simp add: ilog2_def q Let_def)
    then show ?thesis using False low by simp
  qed
qed

lemma fl_round_exact_int:
  assumes "\<bar>k\<bar> < 2 ^ p" and "emin < int p"
  shows "fl_round p emin (of_int k) = of_int k"
proof (cases "k = 0")
  case True
  then show ?thesis by (simp add: fl_round_def)
next
  case False
  let ?x = "of_int k :: rat"
  let ?e = "max (ilog2 \<bar>?x\<bar>) emin"
  have pos: "0 < \<bar>?x\<bar>" using False by simp
  have "2 powi (ilog2 \<bar>?x\<bar>) \<le> \<bar>?x\<bar>" using ilog2_bounds [OF pos] by simp
  also have "\<bar>?x\<bar> < 2 ^ p"
  proof -
    have "(of_int \<bar>k\<bar> :: rat) < of_int (2 ^ p)" using assms(1) by (simp only: of_int_less_iff)
    then show ?thesis by simp
  qed
  also have "(2 :: rat) ^ p = 2 powi (int p)" by simp
  finally have "ilog2 \<bar>?x\<bar> < int p" by (rule pow2_less_exp)
  then have e: "?e < int p" using assms(2) by simp
  define n where "n = nat (int p - 1 - ?e)"
  have q: "(2 :: rat) powi (?e - int p + 1) = inverse (2 ^ n)"
  proof -
    have "?e - int p + 1 = - int n" using e by (simp add: n_def)
    then show ?thesis by (simp add: power_int_minus)
  qed
  have "?x / inverse (2 ^ n) = of_int (k * 2 ^ n)" by (simp add: field_simps)
  then have r: "round_half_even (?x / inverse (2 ^ n)) = k * 2 ^ n"
    by (simp only: round_half_even_of_int)
  have "fl_round p emin ?x = of_int (round_half_even (?x / 2 powi (?e - int p + 1))) * 2 powi (?e - int p + 1)"
    using False by (simp add: fl_round_def Let_def)
  also have "\<dots> = of_int (k * 2 ^ n) * inverse (2 ^ n)" unfolding q r ..
  also have "\<dots> = ?x" by simp
  finally show ?thesis .
qed

lemma fl_round_ge_one:
  assumes "1 \<le> x" and "0 < p" and "emin \<le> 0"
  shows "1 \<le> fl_round p emin x"
proof -
  have pos: "0 < x" using assms(1) by simp
  let ?l = "ilog2 x"
  have b: "2 powi ?l \<le> x" "x < 2 powi (?l + 1)" using ilog2_bounds [OF pos] by simp_all
  have "(2 :: rat) powi 0 < 2 powi (?l + 1)" using assms(1) b(2) by simp
  then have "0 < ?l + 1" by (rule pow2_less_exp)
  then have l0: "0 \<le> ?l" by simp
  then have e: "max (ilog2 \<bar>x\<bar>) emin = ?l" using assms(3) pos by simp
  let ?q = "(2 :: rat) powi (?l - int p + 1)"
  have qpos: "0 < ?q" by simp
  have fl: "fl_round p emin x = of_int (round_half_even (x / ?q)) * ?q"
    using pos e by (simp add: fl_round_def Let_def)
  have "(2 :: rat) powi (int p - 1) * ?q = 2 powi ?l" by (simp add: power_int_add [symmetric])
  then have "(2 :: rat) powi (int p - 1) * ?q \<le> x" using b(1) by simp
  then have "(2 :: rat) powi (int p - 1) \<le> x / ?q" using qpos by (simp add: pos_le_divide_eq)
  moreover have "(2 :: rat) powi (int p - 1) = of_int (2 ^ (p - 1))"
    using assms(2) by (simp add: power_int_def nat_diff_distrib)
  ultimately have "of_int (2 ^ (p - 1)) \<le> x / ?q" by simp
  then have "2 ^ (p - 1) \<le> \<lfloor>x / ?q\<rfloor>" by (simp only: le_floor_iff)
  then have "2 ^ (p - 1) \<le> round_half_even (x / ?q)"
    using round_half_even_ge_floor [of "x / ?q"] by linarith
  then have "(of_int (2 ^ (p - 1)) :: rat) \<le> of_int (round_half_even (x / ?q))"
    by (simp only: of_int_le_iff)
  then have "(of_int (2 ^ (p - 1)) :: rat) * ?q \<le> of_int (round_half_even (x / ?q)) * ?q"
    using qpos by (intro mult_right_mono) simp_all
  moreover have "(of_int (2 ^ (p - 1)) :: rat) * ?q = 2 powi ?l"
  proof -
    have "(of_int (2 ^ (p - 1)) :: rat) = 2 powi (int p - 1)"
      using assms(2) by (simp add: power_int_def nat_diff_distrib)
    then show ?thesis by (simp add: power_int_add [symmetric])
  qed
  moreover have "(1 :: rat) \<le> 2 powi ?l" using l0 by simp
  ultimately show ?thesis unfolding fl by linarith
qed


lemma fl64_exact_nat: "n < 2 ^ 53 \<Longrightarrow> fl64 (of_nat n) = of_nat n"
proof -
  assume "n < 2 ^ 53"
  then have "\<bar>int n\<bar> < 2 ^ 53" by (simp add: of_nat_less_numeral_power_cancel_iff)
  then have "fl_round 53 (- 1022) (of_int (int n)) = of_int (int n)"
    by (intro fl_round_exact_int) simp_all
  then show ?thesis by (simp add: fl64_def)
qed

lemma fl64_ge_one: "1 \<le> x \<Longrightarrow> 1 \<le> fl64 x"
  unfolding fl64_def by (rule fl_round_ge_one) simp_all


lemma float_width_ge_one:
  assumes "0 < h" "h \<le> max_h" "0 < w"
  shows "1 \<le> float_width max_h h w"
proof -
  have "(1 :: rat) \<le> of_nat max_h / of_nat h" using assms by (simp add: le_divide_eq)
  then have s: "1 \<le> fl64 (of_nat max_h / of_nat h)" by (rule fl64_ge_one)
  have "(1 :: rat) \<le> of_nat w" using assms by simp
  then have w: "1 \<le> fl64 (of_nat w)" by (rule fl64_ge_one)
  have "1 * 1 \<le> fl64 (of_nat w) * fl64 (of_nat max_h / of_nat h)"
    using s w by (intro mult_mono) simp_all
  then show ?thesis unfolding float_width_def by (intro fl64_ge_one) simp
qed



subsection \<open>Coverage\<close>

lemma mask_or_nonzero:
  "((if c then (255 :: sample) else 0) OR (if d then 255 else 0)) \<noteq> 0 \<longleftrightarrow> c \<or> d"
  by simp

lemma map2_same:
  "map (\<lambda>(x, y). h x y) (zip (map f xs) (map g xs)) = map (\<lambda>x. h (f x) (g x)) xs"
  by (induction xs) auto

lemma or_masks:
  "bitwise_or (inRange im lo1 hi1) (inRange im lo2 hi2) =
   map (map (\<lambda>p. (if in_bounds lo1 hi1 p then 255 else 0) OR
                  (if in_bounds lo2 hi2 p then 255 else 0))) (img_rows im)"
  unfolding bitwise_or_def inRange_def by (simp add: map2_same)

lemma count_masks:
  "countNonZero (bitwise_or (inRange im lo1 hi1) (inRange im lo2 hi2)) =
   length (filter (\<lambda>p. in_bounds lo1 hi1 p \<or> in_bounds lo2 hi2 p) (concat (img_rows im)))"
proof -
  have "countNonZero (bitwise_or (inRange im lo1 hi1) (inRange im lo2 hi2)) =
    length (filter (\<lambda>v. v \<noteq> 0)
      (map (\<lambda>p. (if in_bounds lo1 hi1 p then (255::sample) else 0) OR
                 (if in_bounds lo2 hi2 p then 255 else 0)) (concat (img_rows im))))"
    by (simp add: countNonZero_def or_masks map_concat)
  also have "\<dots> = length (filter (\<lambda>p. in_bounds lo1 hi1 p \<or> in_bounds lo2 hi2 p) (concat (img_rows im)))"
    by (simp add: filter_map comp_def mask_or_nonzero)
  finally show ?thesis .
qed

lemma count_mapped:
  "length (filter P (concat (map (map f) xss))) = length (filter (\<lambda>x. P (f x)) (concat xss))"
  by (induction xss) (simp_all add: filter_map comp_def)

lemma count_converted:
  "countNonZero (bitwise_or (inRange (convert_pixels conv img) (lower_green a) (upper_green a))
                            (inRange (convert_pixels conv img) (lower_purple a) (upper_purple a))) =
   matching_pixels conv a img"
  by (simp add: count_masks convert_pixels_def matching_pixels_def count_mapped)



lemma coverage_value:
  "measure_coverage conv a img =
     (if img_h img * img_w img = 0 then Inl CvError
      else Inr (of_nat (matching_pixels conv a img) / of_nat (img_h img * img_w img) * 100))"
  by (simp add: measure_coverage_def cvtColor_def Let_def py_div_def count_converted del: of_nat_mult)





subsection \<open>Growth\<close>

lemma growth_of_total:
  "growth_of b a = Inr \<lparr>absolute = a - b, relative = (if b > 0 then (a - b) / b * 100 else 0)\<rparr>"
  by (simp add: growth_of_def py_div_def Let_def)

lemma demo_percentage_a:
  "calculate_plant_percentage demo_world demo_resize demo_cv demo_analyzer ''a.jpg'' False None True s
     = (Inr 0, emit (Log INFO ''Plant percentage'') (emit (Log INFO ''Analyzing image'') s))"
  by (simp add: calculate_plant_percentage_def demo_world_def load_image_def apply_enhancement_def
      demo_cv_def matching_pixels_def coverage_value in_bounds_def demo_analyzer_def)

lemma demo_percentage_b:
  "calculate_plant_percentage demo_world demo_resize demo_cv demo_analyzer ''b.jpg'' False None True s
     = (Inr 50, emit (Log INFO ''Plant percentage'') (emit (Log INFO ''Analyzing image'') s))"
  by (simp add: calculate_plant_percentage_def demo_world_def load_image_def apply_enhancement_def
      demo_cv_def matching_pixels_def coverage_value in_bounds_def demo_analyzer_def)

lemma demo_percentage_c:
  "calculate_plant_percentage demo_world demo_resize demo_cv demo_analyzer ''c.jpg'' False None True s
     = (Inr 100, emit (Log INFO ''Plant percentage'') (emit (Log INFO ''Analyzing image'') s))"
  by (simp add: calculate_plant_percentage_def demo_world_def load_image_def apply_enhancement_def
      demo_cv_def matching_pixels_def coverage_value in_bounds_def demo_analyzer_def)

text \<open>
  C7. Whenever the two coverage measurements succeed with the percentages before and
  after, compare_images returns them with absolute growth after - before and relative
  growth (absolute / before) * 100 when before > 0 and 0 otherwise; the growth arithmetic
  never raises, for any two percentages.
\<close>

theorem compare_images_growth:
  assumes "calculate_plant_percentage w resize cv a p1 dc ep True
             (emit (Log INFO ''Comparing images'') s) = (Inr before, s1)"
    and "calculate_plant_percentage w resize cv a p2 dc ep True s1 = (Inr after, s2)"
  shows "growth_of before after =
           Inr \<lparr>absolute = after - before,
                relative = (if before > 0 then (after - before) / before * 100 else 0)\<rparr>
         \<and> compare_images w resize cv a p1 p2 dc ep s =
           (Inr \<lparr>image1_percentage = before, image2_percentage = after,
                 growth_stats = \<lparr>absolute = after - before,
                   relative = (if before > 0 then (after - before) / before * 100 else 0)\<rparr>\<rparr>, s2)"
  using assms by (simp add: compare_images_def Let_def growth_of_total)

theorem compare_images_growth_witness:
  "fst (compare_images demo_world demo_resize demo_cv demo_analyzer ''a.jpg'' ''b.jpg'' False None fresh)
     = Inr \<lparr>image1_percentage = 0, image2_percentage = 50,
            growth_stats = \<lparr>absolute = 50, relative = 0\<rparr>\<rparr>
   \<and> fst (compare_images demo_world demo_resize demo_cv demo_analyzer ''b.jpg'' ''c.jpg'' False None fresh)
     = Inr \<lparr>image1_percentage = 50, image2_percentage = 100,
            growth_stats = \<lparr>absolute = 50, relative = 100\<rparr>\<rparr>"
  using compare_images_growth [OF demo_percentage_a demo_percentage_b, of fresh]
        compare_images_growth [OF demo_percentage_b demo_percentage_c, of fresh]
  by simp

subsection \<open>Enhancement\<close>

lemma fl32_exact_int: "\<bar>k\<bar> < 2 ^ 24 \<Longrightarrow> fl32 (of_int k) = of_int k"
  unfolding fl32_def by (rule fl_round_exact_int) simp_all

lemma fl32_one: "fl32 1 = 1"
  using fl32_exact_int [of 1] by simp

lemma fl32_zero: "fl32 0 = 0"
  by (simp add: fl32_def fl_round_def)

lemma fl64_one: "fl64 1 = 1"
  using fl64_exact_nat [of 1] by simp

lemma cvRound_of_int: "- (2 ^ 31) \<le> k \<Longrightarrow> k < 2 ^ 31 \<Longrightarrow> cvRound (of_int k) = k"
  by (simp add: cvRound_def Let_def round_half_even_of_int)

lemma uint_sample_le: "uint (v :: sample) \<le> 255"
  using uint_bounded [of v] by simp

lemma scale_abs_sample_id: "scale_abs_sample 1 0 v = v"
proof -
  have sat: "saturate_u8 (uint v) = v"
    using uint_sample_le [of v] by (simp add: saturate_u8_def min_def max_def)
  have small: "\<bar>uint v\<bar> < 2 ^ 24" using uint_sample_le [of v] by simp
  have "fl32 (of_int (uint v) * fl32 1 + fl32 0) = fl32 (of_int (uint v))"
    by (simp add: fl32_one fl32_zero del: of_int_uint)
  also have "\<dots> = of_int (uint v)" using small by (rule fl32_exact_int)
  finally have "\<bar>fl32 (of_int (uint v) * fl32 1 + fl32 0)\<bar> = (of_int (uint v) :: rat)"
    by (simp del: of_int_uint)
  moreover have "cvRound (of_int (uint v)) = uint v"
  proof (rule cvRound_of_int)
    show "- (2 ^ 31) \<le> uint v" by (rule order_trans [of _ 0]) simp_all
    show "uint v < 2 ^ 31" by (rule le_less_trans [OF uint_sample_le]) simp
  qed
  moreover have "f32_finite 1 \<and> f32_finite 0" by (simp add: f32_finite_def)
  ultimately show ?thesis unfolding scale_abs_sample_def by (simp only: sat simp_thms if_True)
qed

lemma map_samples_id: "map_samples (\<lambda>v. v) im = im"
proof -
  have "(\<lambda>(c0 :: sample, c1 :: sample, c2 :: sample). (c0, c1, c2)) = id" by auto
  then show ?thesis by (simp add: map_samples_def)
qed

text \<open>
  C10. With the default parameters (brightness 0, contrast 0, saturation 1.0) enhance_image
  returns an image equal to its input, pixel for pixel: the scale step multiplies by 1 and
  adds 0, and the saturation branch is not taken.
\<close>

theorem enhance_defaults_identity: "enhance_image c1 c2 img 0 0 1 = img"
proof -
  have "scale_abs_sample 1 0 = (\<lambda>v. v)" by (rule ext) (rule scale_abs_sample_id)
  then show ?thesis by (simp add: enhance_image_def convertScaleAbs_def map_samples_id fl64_one)
qed

text \<open>The output of enhance_image has the dimensions of its input.\<close>

lemma enhance_image_shape:
  "img_h (enhance_image c1 c2 img b c s) = img_h img \<and>
   img_w (enhance_image c1 c2 img b c s) = img_w img \<and>
   map length (img_rows (enhance_image c1 c2 img b c s)) = map length (img_rows img)"
  by (simp add: enhance_image_def convertScaleAbs_def map_samples_def convert_pixels_def Let_def comp_def)

text \<open>
  C2. The property: every sample v of every channel becomes
  clamp(v * (1 + contrast) + brightness, 0, 255), and the output has the dimensions of the
  input. The code departs from it where v * (1 + contrast) + brightness is negative. On an
  image of one pixel whose three samples are 10, with brightness -50, contrast 0 and
  saturation 1.0, the clamp gives 0 and enhance_image returns 40: the magnitude
  of 10 - 50.
\<close>

theorem enhance_image_abs_divergence:
  "enhance_image id id \<lparr>img_h = 1, img_w = 1, img_rows = [[(10, 10, 10)]]\<rparr> (- 50) 0 1
     = \<lparr>img_h = 1, img_w = 1, img_rows = [[(40, 40, 40)]]\<rparr>
   \<and> spec_clamp_sample (- 50) 0 10 = 0"
proof -
  have "scale_abs_sample (fl64 (1 + 0)) (- 50) 10 = 40" by code_simp
  then have "enhance_image id id \<lparr>img_h = 1, img_w = 1, img_rows = [[(10, 10, 10)]]\<rparr> (- 50) 0 1
     = \<lparr>img_h = 1, img_w = 1, img_rows = [[(40, 40, 40)]]\<rparr>"
    by (simp add: enhance_image_def convertScaleAbs_def map_samples_def)
  moreover have "spec_clamp_sample (- 50) 0 10 = 0"
    by (simp add: spec_clamp_sample_def)
  ultimately show ?thesis by blast
qed

subsection \<open>Scaling a crop to the common height\<close>

lemma py_int_nonneg: "0 \<le> q \<Longrightarrow> py_int q = \<lfloor>q\<rfloor>"
  by (simp add: py_int_def)

lemma new_width_value:
  assumes "0 < h"
  shows "new_width max_h h w = Inr (py_int (float_width max_h h w))"
  using assms by (simp add: new_width_def py_truediv_def float_width_def)

lemma new_width_floor:
  assumes "0 < h" "h \<le> max_h" "0 < w"
  shows "new_width max_h h w = Inr \<lfloor>float_width max_h h w\<rfloor> \<and> 1 \<le> \<lfloor>float_width max_h h w\<rfloor>"
proof -
  have ge: "1 \<le> float_width max_h h w" using assms by (rule float_width_ge_one)
  then have "py_int (float_width max_h h w) = \<lfloor>float_width max_h h w\<rfloor>"
    by (intro py_int_nonneg) simp
  moreover have "1 \<le> \<lfloor>float_width max_h h w\<rfloor>" using ge by (simp add: le_floor_iff)
  ultimately show ?thesis using assms(1) by (simp add: new_width_value)
qed

lemma scaled_width_pos:
  assumes "0 < h" "h \<le> max_h" "0 < w"
  shows "1 \<le> scaled_width max_h h w"
proof -
  have "1 \<le> \<lfloor>float_width max_h h w\<rfloor>" using new_width_floor [OF assms] by simp
  then show ?thesis unfolding scaled_width_def by linarith
qed




subsection \<open>Failures of the detector\<close>

lemma events_emit: "events (emit e s) = events s @ [e]"
  by (simp add: emit_def)

lemma model_loaded_emit: "model_loaded (emit e s) = model_loaded s"
  by (simp add: emit_def)

lemma load_model_ready:
  assumes "model_loaded s \<or> (path_exists w MODEL_WEIGHTS_PATH \<and> yolo_loads w)"
  shows "load_model w s =
           (Inr (), if model_loaded s then s
                    else (emit (Log INFO ''Loading YOLO model'') s)\<lparr>model_loaded := True\<rparr>)"
  using assms by (auto simp: load_model_def Let_def)

text \<open>
  C6, as amended. Whenever the image is readable, the detector handle is loaded or can be
  loaded, and the inference call raises, crop_front_panel of cropper.py returns the
  unmodified source image with the given output path, writes no file, and logs the failure
  at ERROR level (no warning is logged); the failure is not propagated. crop_front_panel of
  crop.py has no handler: there the failure reaches the caller.
\<close>

theorem inference_failure_fallback:
  assumes "imread w p = Some img"
    and "yolo_infer w p = None"
    and "model_loaded s \<or> (path_exists w MODEL_WEIGHTS_PATH \<and> yolo_loads w)"
  shows "fst (crop_front_panel w resize p out s) = Inr (img, out)
         \<and> events (snd (crop_front_panel w resize p out s)) =
             events s @ [Log INFO ''Processing image for cropping'']
               @ (if model_loaded s then [] else [Log INFO ''Loading YOLO model''])
               @ [Log ERROR ''Inference failed'']
         \<and> fst (legacy_crop_front_panel w resize p out s) = Inl InferenceError"
proof -
  let ?s1 = "emit (Log INFO ''Processing image for cropping'') s"
  have ready: "model_loaded ?s1 \<or> (path_exists w MODEL_WEIGHTS_PATH \<and> yolo_loads w)"
    using assms(3) by (simp add: model_loaded_emit)
  have det: "detect w p ?s1 =
      (Inl InferenceError, if model_loaded ?s1 then ?s1
         else (emit (Log INFO ''Loading YOLO model'') ?s1)\<lparr>model_loaded := True\<rparr>)"
    using assms(2) by (simp add: detect_def load_model_ready [OF ready])
  have pk: "crop_front_panel w resize p out s =
      (Inr (img, out), emit (Log ERROR ''Inference failed'')
         (if model_loaded ?s1 then ?s1
          else (emit (Log INFO ''Loading YOLO model'') ?s1)\<lparr>model_loaded := True\<rparr>))"
    unfolding crop_front_panel_def Let_def using assms(1) det by simp
  have legacy_ready: "\<exists>s1. legacy_load_model w s = (Inr (), s1)"
    using assms(3) by (auto simp: legacy_load_model_def Let_def)
  then obtain s1 where "legacy_load_model w s = (Inr (), s1)" by blast
  then have lg: "legacy_crop_front_panel w resize p out s = (Inl InferenceError, s1)"
    using assms(1,2) by (simp add: legacy_crop_front_panel_def)
  show ?thesis unfolding pk lg by (simp add: events_emit model_loaded_emit)
qed

text \<open>
  C6 as stated fails: the record logged for a failed inference has level ERROR, not
  WARNING, and the crop.py version raises.
\<close>

theorem inference_failure_counterexample:
  "events (snd (crop_front_panel (world_of quad True None) demo_resize ''a.jpg'' None fresh)) =
     [Log INFO ''Processing image for cropping'', Log INFO ''Loading YOLO model'',
      Log ERROR ''Inference failed'']
   \<and> fst (legacy_crop_front_panel (world_of quad True None) demo_resize ''a.jpg'' None fresh)
       = Inl InferenceError"
  by (simp add: crop_front_panel_def legacy_crop_front_panel_def detect_def load_model_def
      legacy_load_model_def world_of_def emit_def fresh_def Let_def MODEL_WEIGHTS_PATH_def)

theorem inference_failure_fallback_witness:
  "fst (crop_front_panel (world_of quad True None) demo_resize ''a.jpg'' (Some ''debug.jpg'') fresh)
     = Inr (quad, Some ''debug.jpg'')"
  using inference_failure_fallback [of "world_of quad True None" "''a.jpg''" quad fresh demo_resize "Some ''debug.jpg''"]
  by (simp add: world_of_def fresh_def MODEL_WEIGHTS_PATH_def)

text \<open>
  What the code does when the weights file is missing and no handle is loaded: load_model
  raises FileNotFoundError; crop_front_panel of cropper.py catches it together with the
  inference failures, logs it at ERROR level and returns the unmodified source image, the
  handle staying unloaded; crop_front_panel of crop.py lets it reach the caller.
\<close>

lemma load_failure_absorbed:
  assumes "imread w p = Some img"
    and "\<not> model_loaded s"
    and "\<not> path_exists w MODEL_WEIGHTS_PATH"
  shows "fst (load_model w s) = Inl FileNotFoundError
         \<and> fst (crop_front_panel w resize p out s) = Inr (img, out)
         \<and> events (snd (crop_front_panel w resize p out s)) =
             events s @ [Log INFO ''Processing image for cropping'',
                         Log ERROR ''Model weights not found'', Log ERROR ''Inference failed'']
         \<and> \<not> model_loaded (snd (crop_front_panel w resize p out s))
         \<and> fst (legacy_crop_front_panel w resize p out s) = Inl FileNotFoundError
         \<and> \<not> model_loaded (snd (legacy_crop_front_panel w resize p out s))"
  using assms
  by (simp add: crop_front_panel_def legacy_crop_front_panel_def detect_def load_model_def
      legacy_load_model_def emit_def Let_def)


subsection \<open>Order of the detections\<close>

lemma sort_key_permutation:
  assumes "mset boxes' = mset boxes" and "inj_on f (set boxes)"
  shows "sort_key f boxes' = sort_key f boxes"
proof (rule sort_key_inj_key_eq)
  show "mset boxes' = mset (sort_key f boxes)" using assms(1) by simp
  have "set boxes' = set boxes" using assms(1) by (rule mset_eq_setD)
  then show "inj_on f (set boxes')" using assms(2) by simp
  show "sorted (map f (sort_key f boxes))" by (rule sorted_sort_key)
qed

lemma collect_crops_permutation:
  assumes "mset boxes' = mset boxes" and "inj_on box_x1 (set boxes)"
  shows "collect_crops img boxes' = collect_crops img boxes"
  using sort_key_permutation [OF assms] by (simp add: collect_crops_def)

lemma finish_panel_boxes:
  "finish_panel (w\<lparr>yolo_infer := g\<rparr>) out img s = finish_panel w out img s"
proof -
  have "imwrite (w\<lparr>yolo_infer := g\<rparr>) = imwrite w"
    by (intro ext) (simp add: imwrite_def)
  then show ?thesis by (simp only: finish_panel_def save_panel_def)
qed

lemma detect_boxes:
  "detect (w\<lparr>yolo_infer := g\<rparr>) p s =
     (case load_model w s of
        (Inl e, s') \<Rightarrow> (Inl e, s')
      | (Inr u, s') \<Rightarrow> (case g p of None \<Rightarrow> (Inl InferenceError, s') | Some boxes \<Rightarrow> (Inr boxes, s')))"
proof -
  have "load_model (w\<lparr>yolo_infer := g\<rparr>) s = load_model w s"
    by (simp add: load_model_def)
  then show ?thesis
    by (simp add: detect_def split: prod.splits sum.splits)
qed

text \<open>
  C5, as amended. For every source image and every sequence of detections in which no two
  different detections share a left edge x1, every permutation of the sequence gives the
  same result of crop_front_panel: the same image, log and saved file. (Python's sort is
  stable, so detections with equal x1 keep the order in which the detector reported them.)
\<close>

theorem panel_order_independent:
  assumes "yolo_infer w p = Some boxes"
    and "mset boxes' = mset boxes"
    and "inj_on box_x1 (set boxes)"
  shows "crop_front_panel (w\<lparr>yolo_infer := (yolo_infer w)(p := Some boxes')\<rparr>) resize p out s =
         crop_front_panel w resize p out s"
proof -
  let ?w' = "w\<lparr>yolo_infer := (yolo_infer w)(p := Some boxes')\<rparr>"
  let ?s1 = "emit (Log INFO ''Processing image for cropping'') s"
  have len: "length boxes' = length boxes" using assms(2) by (rule mset_eq_length)
  have crops: "collect_crops img boxes' = collect_crops img boxes" for img
    using assms(2,3) by (rule collect_crops_permutation)
  have d': "detect ?w' p ?s1 =
      (case load_model w ?s1 of (Inl e, s') \<Rightarrow> (Inl e, s') | (Inr u, s') \<Rightarrow> (Inr boxes', s'))"
    by (simp add: detect_boxes split: prod.splits sum.splits)
  have d: "detect w p ?s1 =
      (case load_model w ?s1 of (Inl e, s') \<Rightarrow> (Inl e, s') | (Inr u, s') \<Rightarrow> (Inr boxes, s'))"
    using assms(1) by (simp add: detect_def split: prod.splits sum.splits)
  obtain r s2 where lm: "load_model w ?s1 = (r, s2)" by (cases "load_model w ?s1")
  show ?thesis
  proof (cases r)
    case (Inl e)
    then show ?thesis unfolding crop_front_panel_def Let_def d d' lm
      by (simp split: option.splits)
  next
    case (Inr u)
    then show ?thesis unfolding crop_front_panel_def Let_def d d' lm
      by (simp add: len crops finish_panel_boxes split: option.splits sum.splits prod.splits)
  qed
qed

text \<open>
  C5 as stated fails: two detections with the same left edge, one above the other, are
  stitched in the order in which they are reported.
\<close>

theorem panel_order_counterexample:
  "mset [(0, 1, 1, 2), (0, 0, 1, 1)] = mset [(0, 0, 1, 1), (0, 1, 1, 2 :: int)]
   \<and> fst (crop_front_panel (world_of quad True (Some [(0, 0, 1, 1), (0, 1, 1, 2)])) demo_resize ''a.jpg'' None fresh)
       = Inr (\<lparr>img_h = 1, img_w = 2, img_rows = [[(1, 1, 1), (3, 3, 3)]]\<rparr>, None)
   \<and> fst (crop_front_panel (world_of quad True (Some [(0, 1, 1, 2), (0, 0, 1, 1)])) demo_resize ''a.jpg'' None fresh)
       = Inr (\<lparr>img_h = 1, img_w = 2, img_rows = [[(3, 3, 3), (1, 1, 1)]]\<rparr>, None)"
proof -
  have "mset [(0, 1, 1, 2), (0, 0, 1, 1)] = mset [(0, 0, 1, 1), (0, 1, 1, 2 :: int)]"
    by (simp add: add.commute)
  moreover have "fst (crop_front_panel (world_of quad True (Some [(0, 0, 1, 1), (0, 1, 1, 2)])) demo_resize ''a.jpg'' None fresh)
       = Inr (\<lparr>img_h = 1, img_w = 2, img_rows = [[(1, 1, 1), (3, 3, 3)]]\<rparr>, None)"
    by code_simp
  moreover have "fst (crop_front_panel (world_of quad True (Some [(0, 1, 1, 2), (0, 0, 1, 1)])) demo_resize ''a.jpg'' None fresh)
       = Inr (\<lparr>img_h = 1, img_w = 2, img_rows = [[(3, 3, 3), (1, 1, 1)]]\<rparr>, None)"
    by code_simp
  ultimately show ?thesis by blast
qed

theorem panel_order_independent_witness:
  "fst (crop_front_panel ((world_of quad True (Some [(0, 0, 1, 2), (1, 0, 2, 1)]))
          \<lparr>yolo_infer := (yolo_infer (world_of quad True (Some [(0, 0, 1, 2), (1, 0, 2, 1)])))
             (''a.jpg'' := Some [(1, 0, 2, 1), (0, 0, 1, 2)])\<rparr>) demo_resize ''a.jpg'' None fresh)
     = Inr (\<lparr>img_h = 2, img_w = 3, img_rows = [[(1, 1, 1), (0, 0, 0), (0, 0, 0)], [(3, 3, 3), (0, 0, 0), (0, 0, 0)]]\<rparr>, None)"
proof -
  have h1: "yolo_infer (world_of quad True (Some [(0, 0, 1, 2), (1, 0, 2, 1)])) ''a.jpg'' = Some [(0, 0, 1, 2), (1, 0, 2, 1)]"
    by (simp add: world_of_def)
  have h2: "mset [(1, 0, 2, 1), (0, 0, 1, 2)] = mset [(0, 0, 1, 2), (1, 0, 2, 1 :: int)]"
    by (simp add: add.commute)
  have h3: "inj_on box_x1 (set [(0, 0, 1, 2), (1, 0, 2, 1)])"
    by (simp add: box_x1_def)
  have ev: "fst (crop_front_panel (world_of quad True (Some [(0, 0, 1, 2), (1, 0, 2, 1)])) demo_resize ''a.jpg'' None fresh)
     = Inr (\<lparr>img_h = 2, img_w = 3, img_rows = [[(1, 1, 1), (0, 0, 0), (0, 0, 0)], [(3, 3, 3), (0, 0, 0), (0, 0, 0)]]\<rparr>, None)"
    by code_simp
  show ?thesis using panel_order_independent [OF h1 h2 h3, of demo_resize None fresh] ev by simp
qed

subsection \<open>Clipping, cropping and stitching\<close>

lemma slice_bound_le: "slice_bound i n \<le> n"
  unfolding slice_bound_def by (cases "i < 0") auto

lemma length_py_slice:
  "length (py_slice a b xs) = slice_bound b (length xs) - slice_bound a (length xs)"
  using slice_bound_le [of b "length xs"] by (simp add: py_slice_def Let_def)

lemma clipped_extent:
  assumes "0 \<le> x2"
  shows "slice_bound (min (int n) x2) n - slice_bound (max 0 x1) n = nat (min (int n) x2 - max 0 x1)"
proof -
  let ?b = "min (int n) x2" and ?a = "max 0 x1"
  have b: "slice_bound ?b n = nat ?b" using assms by (auto simp: slice_bound_def)
  have a: "slice_bound ?a n = min (nat ?a) n" by (auto simp: slice_bound_def)
  have "nat ?b - min (nat ?a) n = nat (?b - ?a)" by (auto simp: min_def max_def)
  then show ?thesis by (simp only: a b)
qed

lemma crop_box_shape:
  assumes "corner_not_negative d"
  shows "img_h (crop_box img d) = nat (clipped_height img d)
         \<and> img_w (crop_box img d) = nat (clipped_width img d)"
proof -
  obtain x1 y1 x2 y2 where d: "d = (x1, y1, x2, y2)" by (cases d) auto
  have "0 \<le> x2" "0 \<le> y2" using assms by (simp_all add: corner_not_negative_def d)
  then show ?thesis
    by (simp add: crop_box_def slice2_def Let_def d clipped_extent
        clipped_height_def clipped_width_def clip_box_def)
qed

lemma crop_kept_iff:
  assumes "corner_not_negative d"
  shows "0 < img_size (crop_box img d) \<longleftrightarrow> positive_area img d"
  using crop_box_shape [OF assms, of img] by (auto simp: img_size_def positive_area_def)

lemma wf_slice2:
  assumes "wf_image img"
  shows "wf_image (slice2 img ya yb xa xb)"
proof -
  have rows: "length (img_rows img) = img_h img"
    and cols: "\<And>r. r \<in> set (img_rows img) \<Longrightarrow> length r = img_w img"
    using assms by (auto simp: wf_image_def list_all_iff)
  have "set (py_slice ya yb (img_rows img)) \<subseteq> set (img_rows img)"
    by (auto simp: py_slice_def Let_def dest: in_set_takeD in_set_dropD)
  then show ?thesis
    using rows cols by (auto simp: wf_image_def slice2_def list_all_iff length_py_slice)
qed

lemma wf_crop_box: "wf_image img \<Longrightarrow> wf_image (crop_box img d)"
  by (cases d) (simp add: crop_box_def Let_def wf_slice2)

lemma collect_crops_survivors:
  assumes "list_all corner_not_negative boxes"
  shows "collect_crops img boxes =
           map (crop_box img) (filter (positive_area img) (sort_key box_x1 boxes))"
proof -
  have "filter (\<lambda>d. 0 < img_size (crop_box img d)) (sort_key box_x1 boxes) =
        filter (positive_area img) (sort_key box_x1 boxes)"
    using assms by (intro filter_cong) (auto simp: list_all_iff crop_kept_iff)
  then show ?thesis by (simp add: collect_crops_def filter_map comp_def)
qed

lemma max_height_ge: "c \<in> set cs \<Longrightarrow> img_h c \<le> max_height cs"
  by (induction cs) auto

lemma max_height_attained: "cs \<noteq> [] \<Longrightarrow> \<exists>c \<in> set cs. img_h c = max_height cs"
proof (induction cs)
  case Nil
  then show ?case by simp
next
  case (Cons c cs)
  show ?case
  proof (cases "cs = []")
    case True
    then show ?thesis by simp
  next
    case False
    then obtain c' where "c' \<in> set cs" "img_h c' = max_height cs" using Cons.IH by blast
    then show ?thesis by (cases "img_h c \<le> max_height cs") (auto simp: max_def)
  qed
qed

lemma resize_crop_scaled:
  assumes "0 < img_h c" and "0 < img_w c" and "img_h c \<le> max_h"
  shows "resize_crop resize max_h c = Inr (scale_to resize max_h c)"
proof (cases "img_h c = max_h")
  case True
  then show ?thesis by (simp add: resize_crop_def scale_to_def)
next
  case False
  have "new_width max_h (img_h c) (img_w c) = Inr \<lfloor>float_width max_h (img_h c) (img_w c)\<rfloor>"
    and "1 \<le> \<lfloor>float_width max_h (img_h c) (img_w c)\<rfloor>"
    using new_width_floor [OF assms(1,3,2)] by simp_all
  moreover have "max_h \<noteq> 0" using assms by simp
  ultimately show ?thesis using False
    by (simp add: resize_crop_def scale_to_def scaled_width_def Let_def)
qed

lemma resize_crops_scaled:
  assumes "\<And>c. c \<in> set cs \<Longrightarrow> 0 < img_h c \<and> 0 < img_w c \<and> img_h c \<le> max_h"
  shows "resize_crops resize max_h cs = Inr (map (scale_to resize max_h) cs)"
  using assms
proof (induction cs)
  case Nil
  then show ?case by simp
next
  case (Cons c cs)
  have "resize_crop resize max_h c = Inr (scale_to resize max_h c)"
    using Cons.prems [of c] by (intro resize_crop_scaled) simp_all
  moreover have "resize_crops resize max_h cs = Inr (map (scale_to resize max_h) cs)"
    using Cons.prems by (intro Cons.IH) simp
  ultimately show ?case by simp
qed

lemma scale_to_shape:
  assumes "\<And>c w h. img_h (resize c w h) = h \<and> img_w (resize c w h) = w"
  shows "img_h (scale_to resize max_h c) = max_h
         \<and> img_w (scale_to resize max_h c) =
             (if img_h c = max_h then img_w c else scaled_width max_h (img_h c) (img_w c))"
  using assms by (simp add: scale_to_def)

lemma hconcat_same_height:
  assumes "ims \<noteq> []" and "\<And>im. im \<in> set ims \<Longrightarrow> img_h im = h"
  shows "hconcat ims =
           Inr \<lparr>img_h = h, img_w = sum_list (map img_w ims),
                img_rows = map (\<lambda>i. concat (map (\<lambda>im. img_rows im ! i) ims)) [0..<h]\<rparr>"
proof -
  have "img_h (hd ims) = h" using assms by simp
  moreover have "list_all (\<lambda>im. img_h im = img_h (hd ims)) ims"
    using assms by (simp add: list_all_iff)
  ultimately show ?thesis using assms(1) by (simp add: hconcat_def)
qed

lemma stitched_panel:
  assumes resize: "\<And>c w h. img_h (resize c w h) = h \<and> img_w (resize c w h) = w"
    and two: "2 \<le> length crops"
    and kept: "\<And>c. c \<in> set crops \<Longrightarrow> 0 < img_size c"
  shows "select_panel resize img crops =
           Inr (\<lparr>img_h = max_height crops,
                 img_w = sum_list (map (\<lambda>c. if img_h c = max_height crops then img_w c
                                            else scaled_width (max_height crops) (img_h c) (img_w c)) crops),
                 img_rows = map (\<lambda>i. concat (map (\<lambda>c. img_rows (scale_to resize (max_height crops) c) ! i) crops))
                              [0..<max_height crops]\<rparr>, True)"
proof -
  let ?H = "max_height crops"
  have ne: "crops \<noteq> []" using two by auto
  have sized: "0 < img_h c \<and> 0 < img_w c \<and> img_h c \<le> ?H" if "c \<in> set crops" for c
    using kept [OF that] max_height_ge [OF that] by (simp add: img_size_def)
  have rs: "resize_crops resize ?H crops = Inr (map (scale_to resize ?H) crops)"
    using sized by (rule resize_crops_scaled)
  have hc: "hconcat (map (scale_to resize ?H) crops) =
      Inr \<lparr>img_h = ?H, img_w = sum_list (map img_w (map (scale_to resize ?H) crops)),
           img_rows = map (\<lambda>i. concat (map (\<lambda>im. img_rows im ! i) (map (scale_to resize ?H) crops))) [0..<?H]\<rparr>"
    using ne scale_to_shape [OF resize] by (intro hconcat_same_height) auto
  have sel: "select_panel resize img crops =
      (case hconcat (map (scale_to resize ?H) crops) of
         Inl e \<Rightarrow> Inl e | Inr final_img \<Rightarrow> Inr (final_img, True))"
    using two by (simp add: select_panel_def Let_def rs)
  show ?thesis unfolding sel hc using scale_to_shape [OF resize] by (simp add: comp_def)
qed

lemma sorted_clipped_edges:
  assumes "sorted (map box_x1 ds)"
  shows "sorted (map (\<lambda>d. fst (clip_box img d)) ds)"
proof -
  have "fst (clip_box img d) = max 0 (box_x1 d)" for d
    by (cases d) (simp add: clip_box_def box_x1_def)
  moreover have "sorted (map (\<lambda>d. max 0 (box_x1 d)) ds)"
    using assms by (induction ds) (auto simp: max_def)
  ultimately show ?thesis by simp
qed

text \<open>
  For detections whose lower right corner is not negative, two or more survivors are
  stitched as the specification says: the height is the largest clipped height, the width
  the sum of the scaled widths, and the crops follow each other by ascending clipped left
  edge.
\<close>

lemma stitched_survivors:
  assumes corners: "list_all corner_not_negative boxes"
    and resize: "\<And>c w h. img_h (resize c w h) = h \<and> img_w (resize c w h) = w"
    and surv: "survivors = filter (positive_area img) (sort_key box_x1 boxes)"
    and two: "2 \<le> length survivors"
    and H: "H = max_height (map (crop_box img) survivors)"
  shows "select_panel resize img (collect_crops img boxes) =
           Inr (\<lparr>img_h = H,
                 img_w = sum_list (map (\<lambda>d. if nat (clipped_height img d) = H then nat (clipped_width img d)
                                            else scaled_width H (nat (clipped_height img d))
                                                   (nat (clipped_width img d))) survivors),
                 img_rows = map (\<lambda>i. concat (map (\<lambda>d. img_rows (scale_to resize H (crop_box img d)) ! i) survivors))
                              [0..<H]\<rparr>, True)
         \<and> (\<forall>d \<in> set survivors. nat (clipped_height img d) \<le> H)
         \<and> (\<exists>d \<in> set survivors. nat (clipped_height img d) = H)
         \<and> sorted (map (\<lambda>d. fst (clip_box img d)) survivors)"
proof -
  let ?crops = "map (crop_box img) survivors"
  have cc: "collect_crops img boxes = ?crops"
    using corners by (simp add: collect_crops_survivors surv)
  have inside: "corner_not_negative d" if "d \<in> set survivors" for d
    using that corners by (auto simp: surv list_all_iff)
  have shape: "img_h (crop_box img d) = nat (clipped_height img d)
      \<and> img_w (crop_box img d) = nat (clipped_width img d)" if "d \<in> set survivors" for d
    using inside [OF that] by (rule crop_box_shape)
  have kept: "0 < img_size c" if "c \<in> set ?crops" for c
  proof -
    from that obtain d where d: "d \<in> set survivors" "c = crop_box img d" by auto
    then have "positive_area img d" by (simp add: surv)
    then show ?thesis using crop_kept_iff [OF inside [OF d(1)], of img] d(2) by simp
  qed
  have two': "2 \<le> length ?crops" using two by simp
  have sp: "select_panel resize img ?crops =
      Inr (\<lparr>img_h = H,
            img_w = sum_list (map (\<lambda>c. if img_h c = H then img_w c
                                       else scaled_width H (img_h c) (img_w c)) ?crops),
            img_rows = map (\<lambda>i. concat (map (\<lambda>c. img_rows (scale_to resize H c) ! i) ?crops)) [0..<H]\<rparr>, True)"
    unfolding H using resize two' kept by (rule stitched_panel)
  have w: "map (\<lambda>c. if img_h c = H then img_w c else scaled_width H (img_h c) (img_w c)) ?crops =
      map (\<lambda>d. if nat (clipped_height img d) = H then nat (clipped_width img d)
               else scaled_width H (nat (clipped_height img d)) (nat (clipped_width img d))) survivors"
    using shape by (simp add: comp_def)
  have le: "\<forall>d \<in> set survivors. nat (clipped_height img d) \<le> H"
  proof
    fix d assume d: "d \<in> set survivors"
    then have "img_h (crop_box img d) \<le> H" unfolding H by (intro max_height_ge) simp
    then show "nat (clipped_height img d) \<le> H" using shape [OF d] by simp
  qed
  have "?crops \<noteq> []" using two by auto
  then obtain c where "c \<in> set ?crops" "img_h c = H"
    unfolding H using max_height_attained by blast
  then obtain d where "d \<in> set survivors" "img_h (crop_box img d) = H" by auto
  then have att: "\<exists>d \<in> set survivors. nat (clipped_height img d) = H"
    using shape by auto
  have "sorted (map box_x1 (sort_key box_x1 boxes))" by (rule sorted_sort_key)
  then have "sorted (map box_x1 survivors)" unfolding surv by (rule sorted_filter)
  then have srt: "sorted (map (\<lambda>d. fst (clip_box img d)) survivors)"
    by (rule sorted_clipped_edges)
  show ?thesis using sp le att srt unfolding cc w by (simp add: comp_def)
qed

text \<open>
  For detections whose lower right corner is not negative, and an output path that can be
  written: when none survives the clipping the source image is returned; the warning is
  logged only when no detection was reported.
\<close>

lemma no_survivor_returns_source:
  assumes "imread w p = Some img"
    and "yolo_infer w p = Some boxes"
    and "model_loaded s \<or> (path_exists w MODEL_WEIGHTS_PATH \<and> yolo_loads w)"
    and "list_all corner_not_negative boxes"
    and "list_all (\<lambda>d. \<not> positive_area img d) boxes"
    and "\<And>q. out = Some q \<Longrightarrow> has_writer w q"
  shows "fst (crop_front_panel w resize p out s) = Inr (img, out)
         \<and> (boxes = [] \<longrightarrow>
              Log WARNING ''No object detected. Returning original image.''
                \<in> set (events (snd (crop_front_panel w resize p out s))))
         \<and> (boxes \<noteq> [] \<longrightarrow>
              Log WARNING ''No object detected. Returning original image.''
                \<notin> set (events (snd (crop_front_panel w resize p out s))) - set (events s))"
proof -
  let ?s1 = "emit (Log INFO ''Processing image for cropping'') s"
  let ?s2 = "if model_loaded ?s1 then ?s1
             else (emit (Log INFO ''Loading YOLO model'') ?s1)\<lparr>model_loaded := True\<rparr>"
  have ready: "model_loaded ?s1 \<or> (path_exists w MODEL_WEIGHTS_PATH \<and> yolo_loads w)"
    using assms(3) by (simp add: model_loaded_emit)
  have det: "detect w p ?s1 = (Inr boxes, ?s2)"
    using assms(2) by (simp add: detect_def load_model_ready [OF ready])
  have "filter (positive_area img) (sort_key box_x1 boxes) = []"
    using assms(5) by (auto simp: filter_empty_conv list_all_iff)
  then have none: "collect_crops img boxes = []"
    using assms(4) by (simp add: collect_crops_survivors)
  show ?thesis
  proof (cases "boxes = []")
    case True
    then have "crop_front_panel w resize p out s =
        finish_panel w out img
           (emit (Log WARNING ''No object detected. Returning original image.'') ?s2)"
      unfolding crop_front_panel_def Let_def using assms(1) det by simp
    then show ?thesis using True assms(6)
      by (auto simp: finish_panel_def save_panel_def imwrite_def events_emit split: option.splits)
  next
    case False
    then have "crop_front_panel w resize p out s =
        finish_panel w out img (emit (Log INFO ''Detected objects'') ?s2)"
      unfolding crop_front_panel_def Let_def using assms(1) det
      by (simp add: none select_panel_def)
    then show ?thesis using False assms(6)
      by (auto simp: finish_panel_def save_panel_def imwrite_def events_emit model_loaded_emit emit_def
          split: option.splits)
  qed
qed


text \<open>
  C3. The property: with two or more detections of positive area after clipping, the output
  has the largest clipped height, its width is the sum of the widths of their crops scaled
  to that height, and the crops follow each other by ascending clipped left edge. The code
  departs from it where a box clips to a negative width. On a 2 x 2 image with the
  detections (0, 0, 1, 2), (1, 0, 2, 2) and (0, 0, -1, 2), two detections survive the
  clipping, each of height 2 and width 1; the output has height 2 and width 3, because the
  third detection contributes the first column once more.
\<close>

theorem stitched_panel_divergence:
  "filter (positive_area quad) (sort_key box_x1 [(0, 0, 1, 2), (1, 0, 2, 2), (0, 0, - 1, 2)])
     = [(0, 0, 1, 2), (1, 0, 2, 2)]
   \<and> map (clipped_height quad) [(0, 0, 1, 2), (1, 0, 2, 2)] = [2, 2]
   \<and> map (clipped_width quad) [(0, 0, 1, 2), (1, 0, 2, 2)] = [1, 1]
   \<and> fst (crop_front_panel (world_of quad True (Some [(0, 0, 1, 2), (1, 0, 2, 2), (0, 0, - 1, 2)]))
            demo_resize ''a.jpg'' None fresh)
       = Inr (\<lparr>img_h = 2, img_w = 3,
               img_rows = [[(1, 1, 1), (1, 1, 1), (2, 2, 2)], [(3, 3, 3), (3, 3, 3), (4, 4, 4)]]\<rparr>, None)"
proof -
  have "filter (positive_area quad) (sort_key box_x1 [(0, 0, 1, 2), (1, 0, 2, 2), (0, 0, - 1, 2)])
     = [(0, 0, 1, 2), (1, 0, 2, 2)]" by code_simp
  moreover have "map (clipped_height quad) [(0, 0, 1, 2), (1, 0, 2, 2)] = [2, 2]" by code_simp
  moreover have "map (clipped_width quad) [(0, 0, 1, 2), (1, 0, 2, 2)] = [1, 1]" by code_simp
  moreover have "fst (crop_front_panel (world_of quad True (Some [(0, 0, 1, 2), (1, 0, 2, 2), (0, 0, - 1, 2)]))
            demo_resize ''a.jpg'' None fresh)
       = Inr (\<lparr>img_h = 2, img_w = 3,
               img_rows = [[(1, 1, 1), (1, 1, 1), (2, 2, 2)], [(3, 3, 3), (3, 3, 3), (4, 4, 4)]]\<rparr>, None)"
    by code_simp
  ultimately show ?thesis by blast
qed

end
